theory Spec2Isabelle
  imports Complex_Main
begin

unbundle bit_operations_syntax

section \<open>Python values used by Hash.py\<close>

text \<open>
  A Python \<open>str\<close> is a sequence of Unicode code points and \<open>ord\<close> reads one of them,
  so a key is the list of its code points. Python's \<open>int\<close> is unbounded: \<open>int\<close>.
\<close>

type_synonym pystr = "nat list"

definition str :: "string \<Rightarrow> pystr" where
  "str s = map of_char s"

datatype py_error = ZeroDivisionError | IndexError | OverflowError

text \<open>\<open>xs[i]\<close>: a negative index counts from the end, an index out of range raises.\<close>

definition norm_index :: "'a list \<Rightarrow> int \<Rightarrow> py_error + nat" where
  "norm_index xs i =
     (if 0 \<le> i \<and> i < int (length xs) then Inr (nat i)
      else if i < 0 \<and> - int (length xs) \<le> i then Inr (nat (int (length xs) + i))
      else Inl IndexError)"

definition getitem :: "'a list \<Rightarrow> int \<Rightarrow> py_error + 'a" where
  "getitem xs i = (case norm_index xs i of Inl e \<Rightarrow> Inl e | Inr j \<Rightarrow> Inr (xs ! j))"

subsection \<open>Floats: \<open>int / int\<close>, \<open>float * float\<close> and \<open>math.ceil\<close>\<close>

text \<open>
  A Python float is an IEEE 754 double. \<open>PyFloat m e\<close> stands for the number
  \<open>m * 2 ^ e\<close>. The true division of two integers is the exact quotient rounded to
  the nearest double, ties to the even mantissa: 53 bits of mantissa, no exponent below
  \<open>-1074\<close>, and \<open>OverflowError\<close> when the rounded value reaches \<open>2 ^ 1024\<close>.
\<close>

datatype pyfloat = PyFloat (mant: int) (expo: int)

text \<open>\<open>n.bit_length()\<close> for \<open>n \<ge> 0\<close>: the number of binary digits of \<open>n\<close>.\<close>

function bit_length :: "int \<Rightarrow> int" where
  "bit_length n = (if n \<le> 0 then 0 else 1 + bit_length (n div 2))"
  by auto
termination
  by (relation "measure nat") auto

declare bit_length.simps [simp del]

text \<open>The integer nearest to \<open>n / d\<close> for \<open>d > 0\<close>, a tie going to the even one.\<close>

definition round_half_even :: "int \<Rightarrow> int \<Rightarrow> int" where
  "round_half_even n d =
     (let q = n div d; r = n mod d
      in if 2 * r < d then q
         else if d < 2 * r then q + 1
         else if even q then q else q + 1)"

text \<open>\<open>\<lfloor>log\<^sub>2 (a / b)\<rfloor>\<close> for positive \<open>a\<close> and \<open>b\<close>.\<close>

definition floor_log2 :: "int \<Rightarrow> int \<Rightarrow> int" where
  "floor_log2 a b =
     (let d = bit_length a - bit_length b
      in if b * 2 ^ nat d \<le> a * 2 ^ nat (- d) then d else d - 1)"

text \<open>The double nearest to \<open>a / b\<close> for positive \<open>a\<close> and \<open>b\<close>, exponent unbounded above.\<close>

definition round_ratio :: "int \<Rightarrow> int \<Rightarrow> pyfloat" where
  "round_ratio a b =
     (let p = max (floor_log2 a b - 52) (- 1074)
      in PyFloat (round_half_even (a * 2 ^ nat (- p)) (b * 2 ^ nat p)) p)"

definition overflows :: "pyfloat \<Rightarrow> bool" where
  "overflows x = (0 \<le> expo x \<and> 2 ^ 1024 \<le> \<bar>mant x\<bar> * 2 ^ nat (expo x))"

definition fneg :: "pyfloat \<Rightarrow> pyfloat" where
  "fneg x = PyFloat (- mant x) (expo x)"

text \<open>
  The double nearest to \<open>a / b\<close> for any \<open>a\<close> and any \<open>b \<noteq> 0\<close>, exponent unbounded
  above. Rounding is symmetric in the sign. The sign of a zero is not kept: nothing in
  Hash.py reads it.
\<close>

definition nearest_double :: "int \<Rightarrow> int \<Rightarrow> pyfloat" where
  "nearest_double a b =
     (if a = 0 then PyFloat 0 0
      else let x = round_ratio \<bar>a\<bar> \<bar>b\<bar>
           in if (a < 0) = (b < 0) then x else fneg x)"

text \<open>\<open>a / b\<close> on Python integers: a quotient beyond the doubles raises.\<close>

definition truediv :: "int \<Rightarrow> int \<Rightarrow> py_error + pyfloat" where
  "truediv a b =
     (if b = 0 then Inl ZeroDivisionError
      else let x = nearest_double a b
           in if overflows x then Inl OverflowError else Inr x)"

text \<open>
  \<open>x * y\<close> on floats: the exact product \<open>mant x * mant y * 2 ^ (expo x + expo y)\<close>,
  rounded. A product beyond the doubles raises nothing: it is an infinity.
\<close>

datatype float_result = Finite pyfloat | Inf | NegInf

definition fmul :: "pyfloat \<Rightarrow> pyfloat \<Rightarrow> float_result" where
  "fmul x y =
     (let e = expo x + expo y;
          z = nearest_double (mant x * mant y * 2 ^ nat e) (2 ^ nat (- e))
      in if overflows z then (if 0 < mant z then Inf else NegInf) else Finite z)"

text \<open>\<open>math.ceil\<close>: the least integer not below the float.\<close>

definition math_ceil :: "pyfloat \<Rightarrow> int" where
  "math_ceil x =
     (if 0 \<le> expo x then mant x * 2 ^ nat (expo x)
      else - ((- mant x) div 2 ^ nat (- expo x)))"

text \<open>The number a float stands for.\<close>

definition fval :: "pyfloat \<Rightarrow> rat" where
  "fval x = of_int (mant x) * (if 0 \<le> expo x then 2 ^ nat (expo x) else 1 / 2 ^ nat (- expo x))"

section \<open>Data model\<close>

record Page =
  page_id :: int
  records :: "pystr list"

text \<open>
  A \<open>BucketNode\<close> owns its overflow node: the chain is a tree-shaped value without
  sharing or cycles.
\<close>

datatype BucketNode =
  BucketNode (capacity: int) (items: "(pystr \<times> int) list") (nxt: "BucketNode option")

record HashIndex =
  fr :: int
  nb :: int
  buckets :: "BucketNode list"
  inserts :: int
  collision_inserts :: int
  overflow_inserts :: int

section \<open>BucketNode\<close>

text \<open>
  The loop of \<open>BucketNode.insert\<close>. \<open>cap0\<close> is \<open>self.capacity\<close>, the capacity given to
  a node the loop allocates; \<open>is_self\<close> tells whether \<open>node\<close> is \<open>self\<close>. The result is
  \<open>node\<close> after the mutation, with the returned flag; \<open>None\<close> is a loop that never
  returns.
\<close>

partial_function (option) insert_loop ::
  "int \<Rightarrow> bool \<Rightarrow> BucketNode \<Rightarrow> pystr \<Rightarrow> int \<Rightarrow> (BucketNode \<times> bool) option" where
  "insert_loop cap0 is_self node key pid =
     (if int (length (items node)) < capacity node
      then Some (BucketNode (capacity node) (items node @ [(key, pid)]) (nxt node), \<not> is_self)
      else case nxt node of
             None \<Rightarrow>
               Option.bind (insert_loop cap0 False (BucketNode cap0 [] None) key pid)
                 (\<lambda>(node', went).
                    Some (BucketNode (capacity node) (items node) (Some node'), went))
           | Some n \<Rightarrow>
               Option.bind (insert_loop cap0 False n key pid)
                 (\<lambda>(node', went).
                    Some (BucketNode (capacity node) (items node) (Some node'), went)))"

declare insert_loop.simps [code]

definition BucketNode_insert :: "BucketNode \<Rightarrow> pystr \<Rightarrow> int \<Rightarrow> (BucketNode \<times> bool) option" where
  "BucketNode_insert self key pid = insert_loop (capacity self) True self key pid"

fun find_items :: "(pystr \<times> int) list \<Rightarrow> pystr \<Rightarrow> int option" where
  "find_items [] key = None"
| "find_items ((k, pid) # rest) key = (if k = key then Some pid else find_items rest key)"

fun BucketNode_find :: "BucketNode \<Rightarrow> pystr \<Rightarrow> int option" where
  "BucketNode_find (BucketNode c its nx) key =
     (case find_items its key of
        Some pid \<Rightarrow> Some pid
      | None \<Rightarrow> (case nx of None \<Rightarrow> None | Some n \<Rightarrow> BucketNode_find n key))"

section \<open>HashIndex\<close>

definition HashIndex_init :: "int \<Rightarrow> HashIndex" where
  "HashIndex_init f =
     \<lparr>fr = f, nb = 0, buckets = [], inserts = 0, collision_inserts = 0, overflow_inserts = 0\<rparr>"

fun hash_loop :: "int \<Rightarrow> pystr \<Rightarrow> int" where
  "hash_loop h [] = h"
| "hash_loop h (ch # rest) = hash_loop ((h * 31 + int ch) AND 0xFFFFFFFF) rest"

definition hash_fn :: "pystr \<Rightarrow> int \<Rightarrow> py_error + int" where
  "hash_fn key n = (if n = 0 then Inl ZeroDivisionError else Inr (hash_loop 0 key mod n))"

text \<open>
  The hash function as the specification words it: a fold over the characters, every step
  reduced modulo \<open>2 ^ 32\<close>, and the sum reduced modulo the bucket count.
\<close>

definition hash_spec :: "pystr \<Rightarrow> int \<Rightarrow> int" where
  "hash_spec key n = fold (\<lambda>c h. (h * 31 + int c) mod 2 ^ 32) key 0 mod n"

text \<open>The body of the inner loop of \<open>build\<close>, for one key of a page.\<close>

definition build_key :: "int \<Rightarrow> HashIndex \<Rightarrow> pystr \<Rightarrow> (py_error + HashIndex) option" where
  "build_key pid self key =
     (case hash_fn key (nb self) of
        Inl e \<Rightarrow> Some (Inl e)
      | Inr b \<Rightarrow>
          (case norm_index (buckets self) b of
             Inl e \<Rightarrow> Some (Inl e)
           | Inr j \<Rightarrow>
               (let primary = buckets self ! j;
                    c = (if 0 < length (items primary)
                         then collision_inserts self + 1 else collision_inserts self)
                in case BucketNode_insert primary key pid of
                     None \<Rightarrow> None
                   | Some (primary', went_overflow) \<Rightarrow>
                       Some (Inr (self\<lparr>buckets := (buckets self)[j := primary'],
                                       collision_inserts := c,
                                       overflow_inserts :=
                                         (if went_overflow then overflow_inserts self + 1
                                          else overflow_inserts self),
                                       inserts := inserts self + 1\<rparr>)))))"

fun build_keys :: "int \<Rightarrow> HashIndex \<Rightarrow> pystr list \<Rightarrow> (py_error + HashIndex) option" where
  "build_keys pid self [] = Some (Inr self)"
| "build_keys pid self (key # rest) =
     (case build_key pid self key of
        None \<Rightarrow> None
      | Some (Inl e) \<Rightarrow> Some (Inl e)
      | Some (Inr self') \<Rightarrow> build_keys pid self' rest)"

fun build_pages :: "HashIndex \<Rightarrow> Page list \<Rightarrow> (py_error + HashIndex) option" where
  "build_pages self [] = Some (Inr self)"
| "build_pages self (page # rest) =
     (case build_keys (page_id page) self (records page) of
        None \<Rightarrow> None
      | Some (Inl e) \<Rightarrow> Some (Inl e)
      | Some (Inr self') \<Rightarrow> build_pages self' rest)"

definition record_count :: "Page list \<Rightarrow> int" where
  "record_count pages = (\<Sum>p\<leftarrow>pages. int (length (records p)))"

definition build :: "HashIndex \<Rightarrow> Page list \<Rightarrow> (py_error + HashIndex) option" where
  "build self pages =
     (let nr = record_count pages
      in case truediv nr (fr self) of
           Inl e \<Rightarrow> Some (Inl e)
         | Inr q \<Rightarrow>
             (let n = math_ceil q + 1
              in build_pages
                   (self\<lparr>nb := n, buckets := replicate (nat n) (BucketNode (fr self) [] None),
                         inserts := 0, collision_inserts := 0, overflow_inserts := 0\<rparr>)
                   pages))"

definition find_page :: "HashIndex \<Rightarrow> pystr \<Rightarrow> py_error + int option" where
  "find_page self key =
     (if buckets self = [] then Inr None
      else case hash_fn key (nb self) of
             Inl e \<Rightarrow> Inl e
           | Inr b \<Rightarrow>
               (case getitem (buckets self) b of
                  Inl e \<Rightarrow> Inl e
                | Inr node \<Rightarrow> Inr (BucketNode_find node key)))"

text \<open>\<open>c / n * 100.0 if n else 0.0\<close>, shared by the two rates.\<close>

definition rate :: "int \<Rightarrow> int \<Rightarrow> py_error + float_result" where
  "rate c n =
     (if n \<noteq> 0
      then (case truediv c n of Inl e \<Rightarrow> Inl e | Inr q \<Rightarrow> Inr (fmul q (PyFloat 100 0)))
      else Inr (Finite (PyFloat 0 0)))"

definition collision_rate :: "HashIndex \<Rightarrow> py_error + float_result" where
  "collision_rate self = rate (collision_inserts self) (inserts self)"

definition overflow_rate :: "HashIndex \<Rightarrow> py_error + float_result" where
  "overflow_rate self = rate (overflow_inserts self) (inserts self)"

section \<open>Table scan\<close>

fun scan_loop :: "int \<Rightarrow> Page list \<Rightarrow> pystr \<Rightarrow> int option \<times> int" where
  "scan_loop cost [] key = (None, cost)"
| "scan_loop cost (p # rest) key =
     (if key \<in> set (records p) then (Some (page_id p), cost + 1)
      else scan_loop (cost + 1) rest key)"

definition table_scan :: "Page list \<Rightarrow> pystr \<Rightarrow> int option \<times> int" where
  "table_scan pages key = scan_loop 0 pages key"

section \<open>Notions used to state the properties\<close>

type_synonym entry = "pystr \<times> int"

text \<open>The nodes of a chain from its head on: capacity and items of each.\<close>

fun chain_nodes :: "BucketNode \<Rightarrow> (int \<times> entry list) list" where
  "chain_nodes (BucketNode c its nx) =
     (c, its) # (case nx of None \<Rightarrow> [] | Some n \<Rightarrow> chain_nodes n)"

definition has_room :: "int \<times> entry list \<Rightarrow> bool" where
  "has_room nd = (int (length (snd nd)) < fst nd)"

text \<open>
  The placement the specification describes: the entry is appended to the first node
  with room; when every node is full, a node of capacity \<open>cap0\<close> holding the entry is
  added after the last one.
\<close>

fun place_entry :: "int \<Rightarrow> (int \<times> entry list) list \<Rightarrow> entry \<Rightarrow> (int \<times> entry list) list" where
  "place_entry cap0 [] e = [(cap0, [e])]"
| "place_entry cap0 (nd # rest) e =
     (if has_room nd then (fst nd, snd nd @ [e]) # rest else nd # place_entry cap0 rest e)"

text \<open>All entries of a chain, in chain order and insertion order within a node.\<close>

definition chain_entries :: "BucketNode \<Rightarrow> entry list" where
  "chain_entries self = concat (map snd (chain_nodes self))"

text \<open>
  The shape of a chain: every node has the head's capacity and at most that many
  entries, and every node but the last has exactly that many.
\<close>

definition nodes_shape :: "int \<Rightarrow> (int \<times> entry list) list \<Rightarrow> bool" where
  "nodes_shape cap ns =
     (list_all (\<lambda>nd. fst nd = cap \<and> int (length (snd nd)) \<le> fst nd) ns \<and>
      list_all (\<lambda>nd. int (length (snd nd)) = fst nd) (butlast ns))"

definition chain_shape :: "BucketNode \<Rightarrow> bool" where
  "chain_shape self = nodes_shape (capacity self) (chain_nodes self)"

text \<open>A sequence of \<open>insert\<close> calls on one chain; \<open>None\<close> when one of them never returns.\<close>

fun insert_all :: "BucketNode \<Rightarrow> entry list \<Rightarrow> BucketNode option" where
  "insert_all self [] = Some self"
| "insert_all self (e # rest) =
     (case BucketNode_insert self (fst e) (snd e) of
        None \<Rightarrow> None
      | Some r \<Rightarrow> insert_all (fst r) rest)"


text \<open>The entries \<open>build\<close> inserts, in the order of its two loops.\<close>

definition page_entries :: "Page \<Rightarrow> entry list" where
  "page_entries p = map (\<lambda>k. (k, page_id p)) (records p)"

definition all_entries :: "Page list \<Rightarrow> entry list" where
  "all_entries pages = concat (map page_entries pages)"

text \<open>The bucket an entry goes to when there are \<open>n\<close> buckets.\<close>

definition bucket_of :: "int \<Rightarrow> entry \<Rightarrow> int" where
  "bucket_of n e = hash_loop 0 (fst e) mod n"

text \<open>
  What holds between two iterations of \<open>build\<close>, after the entries \<open>es\<close>: every bucket
  is a well-shaped chain of capacity \<open>f\<close> holding, in order, the entries of \<open>es\<close> that
  hash to it, and the counters are ordered.
\<close>

definition index_inv :: "int \<Rightarrow> int \<Rightarrow> entry list \<Rightarrow> HashIndex \<Rightarrow> bool" where
  "index_inv f n es self =
     (fr self = f \<and> nb self = n \<and> length (buckets self) = nat n \<and>
      (\<forall>j < nat n. capacity (buckets self ! j) = f \<and> chain_shape (buckets self ! j) \<and>
                   chain_entries (buckets self ! j) = filter (\<lambda>e. bucket_of n e = int j) es) \<and>
      inserts self = int (length es) \<and> 0 \<le> overflow_inserts self \<and>
      overflow_inserts self \<le> collision_inserts self \<and>
      collision_inserts self \<le> inserts self)"

text \<open>The index as \<open>build\<close> sets it up before its loops, with \<open>n\<close> buckets.\<close>

definition fresh_index :: "HashIndex \<Rightarrow> int \<Rightarrow> HashIndex" where
  "fresh_index self n =
     self\<lparr>nb := n, buckets := replicate (nat n) (BucketNode (fr self) [] None),
          inserts := 0, collision_inserts := 0, overflow_inserts := 0\<rparr>"

text \<open>Two pages and the index \<open>build\<close> makes of them with \<open>FR = 1\<close>, for the examples.\<close>

definition demo_pages :: "Page list" where
  "demo_pages = [\<lparr>page_id = 0, records = [[97], [102]]\<rparr>, \<lparr>page_id = 1, records = [[97], [98]]\<rparr>]"

definition demo_index :: HashIndex where
  "demo_index =
     \<lparr>fr = 1, nb = 5,
      buckets =
        [BucketNode 1 [] None, BucketNode 1 [] None,
         BucketNode 1 [([97], 0)]
           (Some (BucketNode 1 [([102], 0)] (Some (BucketNode 1 [([97], 1)] None)))),
         BucketNode 1 [([98], 1)] None, BucketNode 1 [] None],
      inserts = 4, collision_inserts = 2, overflow_inserts = 2\<rparr>"

text \<open>The index \<open>build\<close> makes of no page with \<open>FR = 8\<close>, and an index with one full bucket.\<close>

definition empty_index :: HashIndex where
  "empty_index =
     \<lparr>fr = 8, nb = 1, buckets = [BucketNode 8 [] None],
      inserts = 0, collision_inserts = 0, overflow_inserts = 0\<rparr>"

definition full_index :: HashIndex where
  "full_index =
     \<lparr>fr = 1, nb = 1, buckets = [BucketNode 1 [([97], 0)] None],
      inserts = 1, collision_inserts = 0, overflow_inserts = 0\<rparr>"

text \<open>The pages of the specification's scenario with seven keys and page size 3.\<close>

definition fruit_pages :: "Page list" where
  "fruit_pages =
     [\<lparr>page_id = 0, records = [str ''apple'', str ''banana'', str ''cherry'']\<rparr>,
      \<lparr>page_id = 1, records = [str ''date'', str ''egg'', str ''fig'']\<rparr>,
      \<lparr>page_id = 2, records = [str ''grape'']\<rparr>]"

section \<open>The hash function\<close>

lemma and_mask32: "(x::int) AND 0xFFFFFFFF = x mod 2 ^ 32"
proof -
  have "(0xFFFFFFFF::int) = mask 32" by (simp add: mask_eq_exp_minus_1)
  then show ?thesis by (simp only: flip: take_bit_eq_mask take_bit_eq_mod)
qed

lemma hash_loop_fold: "hash_loop h key = fold (\<lambda>c h. (h * 31 + int c) mod 2 ^ 32) key h"
  by (induction key arbitrary: h) (simp_all add: and_mask32)

text \<open>
  C4. For a positive bucket count \<open>hash_fn\<close> returns (it raises nothing, whatever the
  length of the key: the accumulator wraps modulo \<open>2 ^ 32\<close>) the value of the
  specification's fold reduced modulo the bucket count, and that value is at least \<open>0\<close>
  and below the bucket count. \<open>hash_fn\<close> is a function of the key and the bucket count
  alone, so equal arguments give equal results.
\<close>

theorem hash_fn_spec:
  "0 < n \<Longrightarrow> hash_fn key n = Inr (hash_spec key n) \<and> 0 \<le> hash_spec key n \<and> hash_spec key n < n"
  by (simp add: hash_fn_def hash_spec_def hash_loop_fold)

theorem hash_fn_spec_witness:
  "(0::int) < 5 \<and> hash_fn (str ''apple'') 5 = Inr 0 \<and> hash_spec (str ''apple'') 5 = 0"
  using hash_fn_spec [of 5 "str ''apple''"] by (simp add: hash_spec_def str_def)

section \<open>Bucket chains\<close>

lemma insert_loop_fresh:
  "0 < cap0 \<Longrightarrow> insert_loop cap0 b (BucketNode cap0 [] None) key pid
     = Some (BucketNode cap0 [(key, pid)] None, \<not> b)"
  by (subst insert_loop.simps) simp

lemma insert_loop_place:
  assumes "0 < cap0"
  shows "\<exists>node'. insert_loop cap0 b node key pid
            = Some (node', if int (length (items node)) < capacity node then \<not> b else True) \<and>
          capacity node' = capacity node \<and>
          chain_nodes node' = place_entry cap0 (chain_nodes node) (key, pid)"
proof (induction node arbitrary: b)
  case (BucketNode c its nx)
  show ?case
  proof (cases "int (length its) < c")
    case True
    then show ?thesis
      by (subst insert_loop.simps) (simp add: has_room_def)
  next
    case full: False
    show ?thesis
    proof (cases nx)
      case None
      with full assms show ?thesis
        by (subst insert_loop.simps) (simp add: has_room_def insert_loop_fresh)
    next
      case (Some n)
      from BucketNode.IH [of n False] Some
      obtain n' where n': "insert_loop cap0 False n key pid = Some (n', True)"
        "chain_nodes n' = place_entry cap0 (chain_nodes n) (key, pid)"
        by (auto split: if_splits)
      with full Some show ?thesis
        by (subst insert_loop.simps) (simp add: has_room_def)
    qed
  qed
qed

lemma insert_place:
  assumes "0 < capacity self"
  shows "\<exists>self'. BucketNode_insert self key pid
            = Some (self', \<not> int (length (items self)) < capacity self) \<and>
          capacity self' = capacity self \<and>
          chain_nodes self' = place_entry (capacity self) (chain_nodes self) (key, pid)"
  using insert_loop_place [OF assms, of True self key pid]
  by (auto simp: BucketNode_insert_def)

lemma items_from_nodes: "items node = snd (hd (chain_nodes node))"
  by (cases node) simp

text \<open>
  C5. On a chain whose head has a positive capacity, \<open>insert\<close> returns. The chain it
  leaves is the one the specification describes: the entry appended to the first node
  with room, or a fresh node of the head's capacity after the last node when every node
  is full. The flag returned is true exactly when the items of the head are unchanged,
  and false exactly when the entry was appended to the head, whether the head was empty
  or not.
\<close>

theorem insert_first_room:
  assumes "0 < capacity self"
  shows "\<exists>self' went. BucketNode_insert self key pid = Some (self', went) \<and>
          chain_nodes self' = place_entry (capacity self) (chain_nodes self) (key, pid) \<and>
          went = (items self' = items self) \<and>
          (\<not> went) = (items self' = items self @ [(key, pid)])"
proof -
  from insert_place [OF assms, of key pid] obtain self' where
    ins: "BucketNode_insert self key pid = Some (self', \<not> int (length (items self)) < capacity self)"
    and nodes: "chain_nodes self' = place_entry (capacity self) (chain_nodes self) (key, pid)"
    by blast
  have "items self' = (if int (length (items self)) < capacity self
                       then items self @ [(key, pid)] else items self)"
    by (cases self) (simp add: items_from_nodes [of self'] nodes has_room_def)
  with ins nodes show ?thesis by auto
qed

theorem insert_first_room_witness:
  "0 < capacity (BucketNode 1 [([97], 0)] None) \<and>
   BucketNode_insert (BucketNode 1 [([97], 0)] None) [98] 1
     = Some (BucketNode 1 [([97], 0)] (Some (BucketNode 1 [([98], 1)] None)), True) \<and>
   chain_nodes (BucketNode 1 [([97], 0)] (Some (BucketNode 1 [([98], 1)] None)))
     = place_entry 1 [(1, [([97], 0)])] ([98], 1)"
  using insert_first_room [of "BucketNode 1 [([97], 0)] None" "[98]" 1]
  by (simp add: BucketNode_insert_def insert_loop.simps has_room_def)

lemma nodes_shape_Cons:
  "nodes_shape cap (nd # rest) =
     (fst nd = cap \<and> int (length (snd nd)) \<le> cap \<and>
      (rest \<noteq> [] \<longrightarrow> int (length (snd nd)) = cap) \<and> nodes_shape cap rest)"
  by (auto simp: nodes_shape_def)

lemma place_entry_not_Nil: "place_entry cap ns e \<noteq> []"
  by (cases ns) auto

lemma place_entry_shape:
  "0 < cap \<Longrightarrow> nodes_shape cap ns \<Longrightarrow>
   nodes_shape cap (place_entry cap ns e) \<and>
   concat (map snd (place_entry cap ns e)) = concat (map snd ns) @ [e]"
proof (induction ns)
  case Nil
  then show ?case by (simp add: nodes_shape_def)
next
  case (Cons nd rest)
  show ?case
  proof (cases "has_room nd")
    case True
    with Cons.prems have "rest = []"
      by (auto simp: nodes_shape_Cons has_room_def)
    with True Cons.prems show ?thesis
      by (auto simp: nodes_shape_Cons has_room_def)
  next
    case False
    with Cons show ?thesis
      by (auto simp: nodes_shape_Cons has_room_def place_entry_not_Nil)
  qed
qed

lemma place_entry_grows:
  "length ns < length (place_entry cap ns e) \<Longrightarrow>
   list_all (\<lambda>nd. \<not> has_room nd) ns \<and> place_entry cap ns e = ns @ [(cap, [e])]"
  by (induction ns) (auto split: if_splits)

lemma insert_shape:
  assumes "0 < capacity self" "chain_shape self"
  shows "\<exists>self'. BucketNode_insert self key pid
            = Some (self', \<not> int (length (items self)) < capacity self) \<and>
          capacity self' = capacity self \<and> chain_shape self' \<and>
          chain_entries self' = chain_entries self @ [(key, pid)]"
proof -
  from insert_place [OF assms(1), of key pid] obtain self' where
    ins: "BucketNode_insert self key pid = Some (self', \<not> int (length (items self)) < capacity self)"
    and cap: "capacity self' = capacity self"
    and nodes: "chain_nodes self' = place_entry (capacity self) (chain_nodes self) (key, pid)"
    by blast
  from place_entry_shape [of "capacity self" "chain_nodes self" "(key, pid)"] assms
  have "nodes_shape (capacity self) (place_entry (capacity self) (chain_nodes self) (key, pid))"
    and "concat (map snd (place_entry (capacity self) (chain_nodes self) (key, pid)))
           = chain_entries self @ [(key, pid)]"
    by (simp_all add: chain_shape_def chain_entries_def)
  with ins cap nodes show ?thesis
    by (simp add: chain_shape_def chain_entries_def)
qed

lemma insert_all_shape:
  "0 < capacity self \<Longrightarrow> chain_shape self \<Longrightarrow>
   \<exists>self'. insert_all self es = Some self' \<and> capacity self' = capacity self \<and>
           chain_shape self' \<and> chain_entries self' = chain_entries self @ es"
proof (induction es arbitrary: self)
  case Nil
  then show ?case by simp
next
  case (Cons e es)
  from insert_shape [OF Cons.prems, of "fst e" "snd e"] obtain s1 where
    s1: "BucketNode_insert self (fst e) (snd e)
           = Some (s1, \<not> int (length (items self)) < capacity self)"
    "capacity s1 = capacity self" "chain_shape s1"
    "chain_entries s1 = chain_entries self @ [e]"
    by auto
  with Cons.prems Cons.IH [of s1] show ?case by auto
qed

lemma chain_shape_fresh: "0 \<le> cap \<Longrightarrow> chain_shape (BucketNode cap [] None)"
  by (simp add: chain_shape_def nodes_shape_def)

text \<open>
  C6. Start from a fresh node of positive capacity and insert any sequence of entries:
  every call returns, and in the chain reached every node has at most its capacity of
  entries and every node but the last is full. Whatever entry is inserted next, the
  chain gets one node more only when every node of it was full, and then the new node
  is linked behind the last one, which had no overflow, and nothing else changes.
\<close>

theorem chain_shape_invariant:
  assumes "0 < cap"
  shows "\<exists>self'. insert_all (BucketNode cap [] None) es = Some self' \<and>
          chain_shape self' \<and>
          (\<forall>key pid. \<exists>self'' went.
             BucketNode_insert self' key pid = Some (self'', went) \<and>
             (length (chain_nodes self') < length (chain_nodes self'') \<longrightarrow>
                list_all (\<lambda>nd. \<not> has_room nd) (chain_nodes self') \<and>
                chain_nodes self'' = chain_nodes self' @ [(cap, [(key, pid)])]))"
proof -
  from insert_all_shape [of "BucketNode cap [] None" es] assms obtain self' where
    s: "insert_all (BucketNode cap [] None) es = Some self'" "capacity self' = cap"
       "chain_shape self'"
    by (auto simp: chain_shape_fresh)
  have "\<exists>self'' went.
          BucketNode_insert self' key pid = Some (self'', went) \<and>
          (length (chain_nodes self') < length (chain_nodes self'') \<longrightarrow>
             list_all (\<lambda>nd. \<not> has_room nd) (chain_nodes self') \<and>
             chain_nodes self'' = chain_nodes self' @ [(cap, [(key, pid)])])" for key pid
    using insert_place [of self' key pid] s(2) assms
          place_entry_grows [of "chain_nodes self'" cap "(key, pid)"]
    by auto
  with s show ?thesis by blast
qed


theorem chain_shape_invariant_witness:
  "(0::int) < 1 \<and>
   insert_all (BucketNode 1 [] None) [([97], 0), ([98], 1)]
     = Some (BucketNode 1 [([97], 0)] (Some (BucketNode 1 [([98], 1)] None))) \<and>
   chain_shape (BucketNode 1 [([97], 0)] (Some (BucketNode 1 [([98], 1)] None))) \<and>
   list_all (\<lambda>nd. \<not> has_room nd)
     (chain_nodes (BucketNode 1 [([97], 0)] (Some (BucketNode 1 [([98], 1)] None))))"
proof -
  have run: "insert_all (BucketNode 1 [] None) [([97], 0), ([98], 1)]
               = Some (BucketNode 1 [([97], 0)] (Some (BucketNode 1 [([98], 1)] None)))"
    by (simp add: BucketNode_insert_def insert_loop.simps)
  have next_insert: "BucketNode_insert
           (BucketNode 1 [([97], 0)] (Some (BucketNode 1 [([98], 1)] None))) [99] 2
         = Some (BucketNode 1 [([97], 0)]
                   (Some (BucketNode 1 [([98], 1)] (Some (BucketNode 1 [([99], 2)] None)))), True)"
    by (simp add: BucketNode_insert_def insert_loop.simps)
  from chain_shape_invariant [of 1 "[([97], 0), ([98], 1)]"] run
  have shape: "chain_shape (BucketNode 1 [([97], 0)] (Some (BucketNode 1 [([98], 1)] None)))"
    and step: "\<And>key pid. \<exists>self'' went.
       BucketNode_insert (BucketNode 1 [([97], 0)] (Some (BucketNode 1 [([98], 1)] None))) key pid
         = Some (self'', went) \<and>
       (length (chain_nodes (BucketNode 1 [([97], 0)] (Some (BucketNode 1 [([98], 1)] None))))
          < length (chain_nodes self'') \<longrightarrow>
        list_all (\<lambda>nd. \<not> has_room nd)
          (chain_nodes (BucketNode 1 [([97], 0)] (Some (BucketNode 1 [([98], 1)] None)))) \<and>
        chain_nodes self''
          = chain_nodes (BucketNode 1 [([97], 0)] (Some (BucketNode 1 [([98], 1)] None)))
              @ [(1, [(key, pid)])])"
    by simp_all
  from step [of "[99]" 2] next_insert
  have "list_all (\<lambda>nd. \<not> has_room nd)
          (chain_nodes (BucketNode 1 [([97], 0)] (Some (BucketNode 1 [([98], 1)] None))))"
    by simp
  with run shape show ?thesis by simp
qed

section \<open>Table scan\<close>

lemma scan_loop_None:
  "\<forall>p \<in> set pages. key \<notin> set (records p) \<Longrightarrow>
   scan_loop c pages key = (None, c + int (length pages))"
  by (induction pages arbitrary: c) simp_all

lemma scan_loop_first:
  "i < length pages \<Longrightarrow> key \<in> set (records (pages ! i)) \<Longrightarrow>
   \<forall>j<i. key \<notin> set (records (pages ! j)) \<Longrightarrow>
   scan_loop c pages key = (Some (page_id (pages ! i)), c + int i + 1)"
proof (induction pages arbitrary: c i)
  case Nil
  then show ?case by simp
next
  case (Cons p ps)
  show ?case
  proof (cases i)
    case 0
    with Cons.prems show ?thesis by simp
  next
    case (Suc k)
    from Cons.prems Suc have "key \<notin> set (records p)" by auto
    moreover from Cons.prems Suc
    have "scan_loop (c + 1) ps key = (Some (page_id (ps ! k)), (c + 1) + int k + 1)"
      by (intro Cons.IH) auto
    ultimately show ?thesis using Suc by simp
  qed
qed

text \<open>
  C7. When no page holds the key, \<open>table_scan\<close> returns not-found and the number of
  pages. When page number \<open>i\<close> (counted from 0) holds the key and no page before it does,
  \<open>table_scan\<close> returns that page's id and the cost \<open>i + 1\<close>, its 1-based position.
\<close>

theorem table_scan_cost:
  "((\<forall>p \<in> set pages. key \<notin> set (records p)) \<longrightarrow>
      table_scan pages key = (None, int (length pages))) \<and>
   (i < length pages \<and> key \<in> set (records (pages ! i)) \<and>
    (\<forall>j<i. key \<notin> set (records (pages ! j))) \<longrightarrow>
      table_scan pages key = (Some (page_id (pages ! i)), int i + 1))"
  using scan_loop_None [of pages key 0] scan_loop_first [of i pages key 0]
  by (simp add: table_scan_def)

theorem table_scan_cost_witness:
  "table_scan [\<lparr>page_id = 7, records = [[97], [98]]\<rparr>, \<lparr>page_id = 9, records = [[99], [97]]\<rparr>] [99]
     = (Some 9, 2) \<and>
   table_scan [\<lparr>page_id = 7, records = [[97], [98]]\<rparr>, \<lparr>page_id = 9, records = [[99], [97]]\<rparr>] [100]
     = (None, 2)"
  using table_scan_cost
          [of "[\<lparr>page_id = 7, records = [[97], [98]]\<rparr>, \<lparr>page_id = 9, records = [[99], [97]]\<rparr>]"
              "[99]" 1]
        table_scan_cost
          [of "[\<lparr>page_id = 7, records = [[97], [98]]\<rparr>, \<lparr>page_id = 9, records = [[99], [97]]\<rparr>]"
              "[100]" 0]
  by (simp add: less_Suc_eq)

section \<open>Construction and lookup before any build\<close>

text \<open>
  C8. On an index as \<open>__init__\<close> leaves it, \<open>find_page\<close> returns not-found for every
  key and raises nothing.
\<close>

theorem find_page_unbuilt: "find_page (HashIndex_init f) key = Inr None"
  by (simp add: find_page_def HashIndex_init_def)

lemma truediv_zero: "b \<noteq> 0 \<Longrightarrow> truediv 0 b = Inr (PyFloat 0 0)"
  by (simp add: truediv_def nearest_double_def overflows_def)

lemma build_fr_zero: "fr self = 0 \<Longrightarrow> build self pages = Some (Inl ZeroDivisionError)"
  by (simp add: build_def truediv_def)

lemma build_no_pages:
  "fr self \<noteq> 0 \<Longrightarrow> build self [] =
     Some (Inr (self\<lparr>nb := 1, buckets := [BucketNode (fr self) [] None],
                     inserts := 0, collision_inserts := 0, overflow_inserts := 0\<rparr>))"
  by (simp add: build_def record_count_def truediv_zero math_ceil_def)

lemma empty_build: "build (HashIndex_init 8) [] = Some (Inr empty_index)"
  by (simp add: build_no_pages HashIndex_init_def empty_index_def)

text \<open>
  C3, as the specification states it, fails: \<open>__init__\<close> checks nothing. With \<open>FR = 0\<close>
  it returns an index holding \<open>fr = 0\<close>, and the error comes only from the division in
  \<open>build\<close>; with \<open>FR = -1\<close> not even \<open>build\<close> rejects the index when there is no record.
\<close>

theorem init_rejects_counterexample:
  "HashIndex_init 0 =
     \<lparr>fr = 0, nb = 0, buckets = [], inserts = 0, collision_inserts = 0, overflow_inserts = 0\<rparr> \<and>
   build (HashIndex_init 0) [] = Some (Inl ZeroDivisionError) \<and>
   build (HashIndex_init (- 1)) [] =
     Some (Inr \<lparr>fr = - 1, nb = 1, buckets = [BucketNode (- 1) [] None],
                inserts = 0, collision_inserts = 0, overflow_inserts = 0\<rparr>)"
  by (simp add: HashIndex_init_def build_def record_count_def truediv_def nearest_double_def
        overflows_def math_ceil_def)

text \<open>
  C3, amended. \<open>__init__\<close> accepts every \<open>FR\<close> and stores it as given, neither rejecting
  nor clamping it. \<open>FR = 0\<close> is rejected only inside \<open>build\<close>, by the
  \<open>ZeroDivisionError\<close> of \<open>nr / self.fr\<close>, whatever the pages. \<open>FR < 0\<close> is not rejected
  by \<open>__init__\<close> either, and \<open>build\<close> over no page then completes with one bucket of
  capacity \<open>FR\<close>.
\<close>

theorem init_accepts_any_fr:
  "HashIndex_init f =
     \<lparr>fr = f, nb = 0, buckets = [], inserts = 0, collision_inserts = 0, overflow_inserts = 0\<rparr> \<and>
   build (HashIndex_init 0) pages = Some (Inl ZeroDivisionError) \<and>
   (f < 0 \<longrightarrow> build (HashIndex_init f) [] =
     Some (Inr \<lparr>fr = f, nb = 1, buckets = [BucketNode f [] None],
                inserts = 0, collision_inserts = 0, overflow_inserts = 0\<rparr>))"
  by (simp add: build_fr_zero build_no_pages HashIndex_init_def)

theorem init_accepts_any_fr_witness:
  "HashIndex_init (- 3) =
     \<lparr>fr = - 3, nb = 0, buckets = [], inserts = 0, collision_inserts = 0, overflow_inserts = 0\<rparr> \<and>
   build (HashIndex_init 0) [\<lparr>page_id = 0, records = [[97]]\<rparr>] = Some (Inl ZeroDivisionError) \<and>
   build (HashIndex_init (- 3)) [] =
     Some (Inr \<lparr>fr = - 3, nb = 1, buckets = [BucketNode (- 3) [] None],
                inserts = 0, collision_inserts = 0, overflow_inserts = 0\<rparr>)"
proof -
  have "(- 3 :: int) < 0" by simp
  with init_accepts_any_fr [of "- 3" "[\<lparr>page_id = 0, records = [[97]]\<rparr>]"]
  show ?thesis by blast
qed

section \<open>Building the index\<close>

lemma norm_index_in_range:
  "0 \<le> i \<Longrightarrow> i < int (length xs) \<Longrightarrow> norm_index xs i = Inr (nat i)"
  by (simp add: norm_index_def)

lemma build_key_inv:
  assumes f: "0 < f" and n: "0 < n" and inv: "index_inv f n es self"
  shows "\<exists>self'. build_key pid self key = Some (Inr self') \<and>
                 index_inv f n (es @ [(key, pid)]) self'"
proof -
  define b where "b = hash_loop 0 key mod n"
  define j where "j = nat b"
  define primary where "primary = buckets self ! j"
  from n have b: "0 \<le> b" "b < n" by (simp_all add: b_def)
  then have j: "j < nat n" "int j = b" by (simp_all add: j_def)
  from inv have len: "length (buckets self) = nat n" and nbs: "nb self = n"
    by (simp_all add: index_inv_def)
  from n nbs have h: "hash_fn key (nb self) = Inr b" by (simp add: hash_fn_def b_def)
  from b len have ni: "norm_index (buckets self) b = Inr j"
    by (simp add: norm_index_in_range j_def)
  from inv j have prim: "capacity primary = f" "chain_shape primary"
    "chain_entries primary = filter (\<lambda>e. bucket_of n e = int j) es"
    by (simp_all add: index_inv_def primary_def)
  from insert_shape [of primary key pid] prim f obtain primary' where
    ins: "BucketNode_insert primary key pid = Some (primary', \<not> int (length (items primary)) < f)"
    and p': "capacity primary' = f" "chain_shape primary'"
       "chain_entries primary' = chain_entries primary @ [(key, pid)]"
    by auto
  define self' where "self' = self\<lparr>buckets := (buckets self)[j := primary'],
      collision_inserts := (if 0 < length (items primary)
                            then collision_inserts self + 1 else collision_inserts self),
      overflow_inserts := (if \<not> int (length (items primary)) < f
                           then overflow_inserts self + 1 else overflow_inserts self),
      inserts := inserts self + 1\<rparr>"
  have res: "build_key pid self key = Some (Inr self')"
    by (simp add: build_key_def h ni ins self'_def flip: primary_def)
  have bk: "bucket_of n (key, pid) = int j" by (simp add: bucket_of_def b_def j)
  have chains: "capacity (buckets self' ! i) = f \<and> chain_shape (buckets self' ! i) \<and>
        chain_entries (buckets self' ! i) = filter (\<lambda>e. bucket_of n e = int i) (es @ [(key, pid)])"
    if "i < nat n" for i
  proof (cases "i = j")
    case True
    with that len p' prim show ?thesis by (simp add: self'_def bk)
  next
    case False
    with that len inv show ?thesis by (simp add: self'_def bk index_inv_def)
  qed
  from inv f have "index_inv f n (es @ [(key, pid)]) self'"
    unfolding index_inv_def using chains
    by (auto simp: self'_def)
  with res show ?thesis by blast
qed

lemma build_keys_inv:
  "0 < f \<Longrightarrow> 0 < n \<Longrightarrow> index_inv f n es self \<Longrightarrow>
   \<exists>self'. build_keys pid self keys = Some (Inr self') \<and>
           index_inv f n (es @ map (\<lambda>k. (k, pid)) keys) self'"
proof (induction keys arbitrary: es self)
  case Nil
  then show ?case by simp
next
  case (Cons k ks)
  from build_key_inv [OF Cons.prems, of pid k] obtain s1 where
    s1: "build_key pid self k = Some (Inr s1)" "index_inv f n (es @ [(k, pid)]) s1"
    by blast
  from Cons.IH [OF Cons.prems(1,2) s1(2)] s1(1) show ?case by simp
qed

lemma build_pages_inv:
  "0 < f \<Longrightarrow> 0 < n \<Longrightarrow> index_inv f n es self \<Longrightarrow>
   \<exists>self'. build_pages self pages = Some (Inr self') \<and>
           index_inv f n (es @ all_entries pages) self'"
proof (induction pages arbitrary: es self)
  case Nil
  then show ?case by (simp add: all_entries_def)
next
  case (Cons p ps)
  from build_keys_inv [OF Cons.prems, of "page_id p" "records p"] obtain s1 where
    s1: "build_keys (page_id p) self (records p) = Some (Inr s1)"
        "index_inv f n (es @ page_entries p) s1"
    by (auto simp: page_entries_def)
  from Cons.IH [OF Cons.prems(1,2) s1(2)] s1(1) show ?case by (simp add: all_entries_def)
qed

lemma index_inv_start:
  "0 < f \<Longrightarrow> 0 < n \<Longrightarrow>
   index_inv f n [] (self\<lparr>fr := f, nb := n, buckets := replicate (nat n) (BucketNode f [] None),
                          inserts := 0, collision_inserts := 0, overflow_inserts := 0\<rparr>)"
  by (simp add: index_inv_def chain_shape_fresh chain_entries_def)

lemma insert_loop_diverges_aux:
  assumes "insert_loop cap0 b node key pid = Some r"
  shows "\<not> (cap0 \<le> 0 \<and> list_all (\<lambda>nd. \<not> has_room nd) (chain_nodes node))"
proof (rule insert_loop.raw_induct
         [where P = "\<lambda>c b nd k p r. \<not> (c \<le> 0 \<and> list_all (\<lambda>x. \<not> has_room x) (chain_nodes nd))",
          OF _ assms])
  fix f cap0 is_self node key pid r
  assume IH: "\<And>c b nd k p y. f c b nd k p = Some y \<Longrightarrow>
                \<not> (c \<le> 0 \<and> list_all (\<lambda>x. \<not> has_room x) (chain_nodes nd))"
    and body: "(if int (length (items node)) < capacity node
      then Some (BucketNode (capacity node) (items node @ [(key, pid)]) (nxt node), \<not> is_self)
      else case nxt node of
             None \<Rightarrow>
               Option.bind (f cap0 False (BucketNode cap0 [] None) key pid)
                 (\<lambda>(node', went).
                    Some (BucketNode (capacity node) (items node) (Some node'), went))
           | Some n \<Rightarrow>
               Option.bind (f cap0 False n key pid)
                 (\<lambda>(node', went).
                    Some (BucketNode (capacity node) (items node) (Some node'), went))) = Some r"
  show "\<not> (cap0 \<le> 0 \<and> list_all (\<lambda>x. \<not> has_room x) (chain_nodes node))"
  proof
    assume full: "cap0 \<le> 0 \<and> list_all (\<lambda>nd. \<not> has_room nd) (chain_nodes node)"
    then have noroom: "\<not> int (length (items node)) < capacity node"
      by (cases node) (simp add: has_room_def)
    define succ where "succ = (case nxt node of None \<Rightarrow> BucketNode cap0 [] None | Some n \<Rightarrow> n)"
    from full have "list_all (\<lambda>nd. \<not> has_room nd) (chain_nodes succ)"
      by (cases node) (auto simp: succ_def has_room_def split: option.splits)
    moreover from body noroom obtain r' where "f cap0 False succ key pid = Some r'"
      by (auto simp: succ_def bind_eq_Some_conv split: option.splits)
    ultimately show False using IH full by blast
  qed
qed

lemma insert_diverges:
  "f \<le> 0 \<Longrightarrow> BucketNode_insert (BucketNode f [] None) key pid = None"
  using insert_loop_diverges_aux [of f True "BucketNode f [] None" key pid]
  by (cases "BucketNode_insert (BucketNode f [] None) key pid")
     (auto simp: BucketNode_insert_def has_room_def)

lemma round_half_even_nonneg: "0 \<le> n \<Longrightarrow> 0 < d \<Longrightarrow> 0 \<le> round_half_even n d"
  by (auto simp: round_half_even_def Let_def pos_imp_zdiv_nonneg_iff intro: add_nonneg_nonneg)

lemma round_ratio_nonneg: "0 \<le> a \<Longrightarrow> 0 < b \<Longrightarrow> 0 \<le> mant (round_ratio a b)"
  by (simp add: round_ratio_def Let_def round_half_even_nonneg)

lemma math_ceil_nonneg: "0 \<le> mant x \<Longrightarrow> 0 \<le> math_ceil x"
  by (simp add: math_ceil_def div_nonpos_pos_le0)

lemma math_ceil_nonpos: "mant x \<le> 0 \<Longrightarrow> math_ceil x \<le> 0"
  by (simp add: math_ceil_def mult_le_0_iff pos_imp_zdiv_nonneg_iff)

lemma truediv_nonneg: "0 \<le> a \<Longrightarrow> 0 < b \<Longrightarrow> truediv a b = Inr q \<Longrightarrow> 0 \<le> mant q"
  using round_ratio_nonneg [of "\<bar>a\<bar>" "\<bar>b\<bar>"]
  by (auto simp: truediv_def nearest_double_def Let_def split: if_splits)

lemma truediv_nonpos: "0 \<le> a \<Longrightarrow> b < 0 \<Longrightarrow> truediv a b = Inr q \<Longrightarrow> mant q \<le> 0"
  using round_ratio_nonneg [of "\<bar>a\<bar>" "\<bar>b\<bar>"]
  by (auto simp: truediv_def nearest_double_def Let_def fneg_def split: if_splits)

lemma record_count_entries: "record_count pages = int (length (all_entries pages))"
  by (induction pages) (simp_all add: record_count_def all_entries_def page_entries_def)

lemma build_cases:
  "build self pages = Some (Inr self') \<Longrightarrow>
   \<exists>q. truediv (record_count pages) (fr self) = Inr q \<and>
       build_pages (fresh_index self (math_ceil q + 1)) pages = Some (Inr self')"
  by (auto simp: build_def Let_def fresh_index_def split: sum.splits)

lemma build_positive:
  assumes "0 < fr self" "build self pages = Some (Inr self')"
  shows "\<exists>q. truediv (record_count pages) (fr self) = Inr q \<and> 0 < math_ceil q + 1 \<and>
             index_inv (fr self) (math_ceil q + 1) (all_entries pages) self'"
proof -
  from build_cases [OF assms(2)] obtain q where
    q: "truediv (record_count pages) (fr self) = Inr q"
    and bp: "build_pages (fresh_index self (math_ceil q + 1)) pages = Some (Inr self')"
    by blast
  have "0 \<le> record_count pages" by (simp add: record_count_entries)
  from truediv_nonneg [OF this assms(1) q] have n: "0 < math_ceil q + 1"
    using math_ceil_nonneg [of q] by simp
  from index_inv_start [OF assms(1) n, of self]
  have "index_inv (fr self) (math_ceil q + 1) [] (fresh_index self (math_ceil q + 1))"
    by (simp add: fresh_index_def)
  from build_pages_inv [OF assms(1) n this, of pages] bp
  have "index_inv (fr self) (math_ceil q + 1) (all_entries pages) self'" by simp
  with q n show ?thesis by blast
qed

lemma build_pages_no_entries:
  "all_entries pages = [] \<Longrightarrow> build_pages self pages = Some (Inr self)"
  by (induction pages) (simp_all add: all_entries_def page_entries_def)

lemma build_pages_stuck:
  assumes stuck: "\<And>pid key s. build_key pid self key \<noteq> Some (Inr s)"
  shows "all_entries pages \<noteq> [] \<Longrightarrow> build_pages self pages \<noteq> Some (Inr s)"
proof (induction pages)
  case Nil
  then show ?case by (simp add: all_entries_def)
next
  case (Cons p ps)
  show ?case
  proof (cases "records p")
    case Nil
    with Cons show ?thesis by (simp add: all_entries_def page_entries_def)
  next
    case (Cons k ks)
    with stuck [of "page_id p" k] show ?thesis
      by (auto split: option.splits sum.splits)
  qed
qed

lemma build_key_stuck:
  assumes "fr self \<le> 0" "n \<le> 1"
  shows "build_key pid (fresh_index self n) key \<noteq> Some (Inr s)"
proof -
  consider "n = 1" | "n = 0" | "n < 0" using assms(2) by linarith
  then show ?thesis
  proof cases
    case 1
    with assms(1) show ?thesis
      by (simp add: build_key_def fresh_index_def hash_fn_def norm_index_def insert_diverges)
  next
    case 2
    then show ?thesis by (simp add: build_key_def fresh_index_def hash_fn_def)
  next
    case 3
    then show ?thesis
      by (auto simp: build_key_def fresh_index_def hash_fn_def norm_index_def)
  qed
qed

lemma build_nonpositive:
  assumes "fr self \<le> 0" "build self pages = Some (Inr self')"
  shows "all_entries pages = [] \<and> self' = fresh_index self 1"
proof -
  from build_cases [OF assms(2)] obtain q where
    q: "truediv (record_count pages) (fr self) = Inr q"
    and bp: "build_pages (fresh_index self (math_ceil q + 1)) pages = Some (Inr self')"
    by blast
  from q assms(1) have neg: "fr self < 0" by (auto simp: truediv_def split: if_splits)
  have "0 \<le> record_count pages" by (simp add: record_count_entries)
  from truediv_nonpos [OF this neg q] have "math_ceil q + 1 \<le> 1"
    using math_ceil_nonpos [of q] by simp
  from build_pages_stuck [of "fresh_index self (math_ceil q + 1)" pages self']
       build_key_stuck [OF assms(1) this] bp
  have none: "all_entries pages = []" by blast
  then have "record_count pages = 0" by (simp add: record_count_entries)
  with q neg have "q = PyFloat 0 0" by (simp add: truediv_zero)
  with bp none show ?thesis by (simp add: build_pages_no_entries math_ceil_def)
qed

lemma find_items_append:
  "find_items (xs @ ys) key =
     (case find_items xs key of Some pid \<Rightarrow> Some pid | None \<Rightarrow> find_items ys key)"
  by (induction xs key rule: find_items.induct) simp_all

lemma find_chain_entries: "BucketNode_find node key = find_items (chain_entries node) key"
  by (induction node)
     (auto simp: chain_entries_def find_items_append split: option.splits)

lemma find_items_bucket:
  "find_items (filter (\<lambda>e. bucket_of n e = bucket_of n (key, pid)) es) key = find_items es key"
  by (induction es key rule: find_items.induct) (auto simp: bucket_of_def)

lemma find_items_page:
  "find_items (page_entries p) key = (if key \<in> set (records p) then Some (page_id p) else None)"
proof -
  have "find_items (map (\<lambda>k. (k, pid)) ks) key = (if key \<in> set ks then Some pid else None)"
    for ks pid
    by (induction ks) auto
  then show ?thesis by (simp add: page_entries_def)
qed

lemma find_items_scan: "find_items (all_entries pages) key = fst (scan_loop c pages key)"
proof (induction pages arbitrary: c)
  case Nil
  then show ?case by (simp add: all_entries_def)
next
  case (Cons p ps)
  from Cons [of "c + 1"] show ?case
    by (simp add: all_entries_def find_items_append find_items_page)
qed

lemma find_page_inv:
  assumes "0 < n" "index_inv f n es self"
  shows "find_page self key = Inr (find_items es key)"
proof -
  define b where "b = hash_loop 0 key mod n"
  from assms(1) have b: "0 \<le> b" "b < n" by (simp_all add: b_def)
  from assms have len: "length (buckets self) = nat n" and nbs: "nb self = n"
    by (simp_all add: index_inv_def)
  with assms(1) have ne: "buckets self \<noteq> []" by auto
  from assms(1) nbs have h: "hash_fn key (nb self) = Inr b" by (simp add: hash_fn_def b_def)
  from b len have gi: "getitem (buckets self) b = Inr (buckets self ! nat b)"
    by (simp add: getitem_def norm_index_in_range)
  have bk: "b = bucket_of n (key, 0)" by (simp add: bucket_of_def b_def)
  from assms(2) b have "chain_entries (buckets self ! nat b) = filter (\<lambda>e. bucket_of n e = b) es"
    by (simp add: index_inv_def)
  then have "find_items (chain_entries (buckets self ! nat b)) key
               = find_items (filter (\<lambda>e. bucket_of n e = bucket_of n (key, 0)) es) key"
    by (simp only: flip: bk)
  then have "BucketNode_find (buckets self ! nat b) key = find_items es key"
    by (simp only: find_chain_entries find_items_bucket)
  with ne h gi show ?thesis by (simp add: find_page_def)
qed

lemma find_page_built:
  assumes "build self pages = Some (Inr self')"
  shows "find_page self' key = Inr (find_items (all_entries pages) key)"
proof (cases "0 < fr self")
  case True
  from build_positive [OF True assms] find_page_inv show ?thesis by blast
next
  case False
  with build_nonpositive [OF _ assms]
  have "all_entries pages = []" "self' = fresh_index self 1" by simp_all
  then show ?thesis
    by (simp add: find_page_def fresh_index_def hash_fn_def getitem_def norm_index_def)
qed

lemma demo_build: "build (HashIndex_init 1) demo_pages = Some (Inr demo_index)"
  by code_simp

lemma insert_overflow_nonempty:
  assumes "1 \<le> capacity node" "BucketNode_insert node key pid = Some (node', True)"
  shows "0 < length (items node)"
  using insert_place [of node key pid] assms by auto

lemma counters_built:
  assumes "build self pages = Some (Inr self')"
  shows "0 \<le> overflow_inserts self' \<and> overflow_inserts self' \<le> collision_inserts self' \<and>
         collision_inserts self' \<le> inserts self' \<and> inserts self' = record_count pages"
proof (cases "0 < fr self")
  case True
  from build_positive [OF True assms] show ?thesis
    by (auto simp: index_inv_def record_count_entries)
next
  case False
  with build_nonpositive [OF _ assms]
  have "all_entries pages = []" "self' = fresh_index self 1" by simp_all
  then show ?thesis by (simp add: fresh_index_def record_count_entries)
qed

lemma build_key_overflow_collision:
  assumes "list_all (\<lambda>node. 1 \<le> capacity node) (buckets self)"
    and "build_key pid self key = Some (Inr self')"
    and "overflow_inserts self' \<noteq> overflow_inserts self"
  shows "collision_inserts self' = collision_inserts self + 1"
proof -
  from assms(2) obtain b j primary' went where
    j: "norm_index (buckets self) b = Inr j"
    and ins: "BucketNode_insert (buckets self ! j) key pid = Some (primary', went)"
    and self': "self' = self\<lparr>buckets := (buckets self)[j := primary'],
        collision_inserts := (if 0 < length (items (buckets self ! j))
                              then collision_inserts self + 1 else collision_inserts self),
        overflow_inserts := (if went then overflow_inserts self + 1 else overflow_inserts self),
        inserts := inserts self + 1\<rparr>"
    by (auto simp: build_key_def Let_def split: sum.splits option.splits)
  from j have "j < length (buckets self)"
    by (auto simp: norm_index_def split: if_splits)
  with assms(1) have cap: "1 \<le> capacity (buckets self ! j)"
    by (simp add: list_all_length)
  from assms(3) self' have "went" by (auto split: if_splits)
  with insert_overflow_nonempty [OF cap, of key pid primary'] ins
  have "0 < length (items (buckets self ! j))"
    by simp
  with self' show ?thesis by simp
qed

section \<open>Rounding of the true division\<close>

lemma pow2_nat_add: "0 \<le> x \<Longrightarrow> 0 \<le> y \<Longrightarrow> (2::int) ^ nat x * 2 ^ nat y = 2 ^ nat (x + y)"
  by (simp add: nat_add_distrib power_add)

lemma bit_length_bounds:
  "0 < n \<Longrightarrow> 1 \<le> bit_length n \<and> 2 ^ nat (bit_length n - 1) \<le> n \<and> n < 2 ^ nat (bit_length n)"
proof (induction n rule: bit_length.induct)
  case (1 n)
  show ?case
  proof (cases "n div 2 = 0")
    case True
    with 1 have "n = 1" by presburger
    then show ?thesis by (simp add: bit_length.simps)
  next
    case False
    with 1 have pos: "0 < n div 2" by presburger
    define k where "k = bit_length (n div 2)"
    from 1 pos have IH: "1 \<le> k" "2 ^ nat (k - 1) \<le> n div 2" "n div 2 < 2 ^ nat k"
      by (simp_all add: k_def)
    from 1(2) have bl: "bit_length n = 1 + k" by (subst bit_length.simps) (simp add: k_def)
    from IH(1) have "(2::int) ^ nat k = 2 * 2 ^ nat (k - 1)"
      by (metis Suc_nat_eq_nat_zadd1 add.commute diff_add_cancel diff_ge_0_iff_ge power_Suc)
    with IH have "2 ^ nat k \<le> n" by presburger
    moreover from IH(1) have "(2::int) ^ nat (1 + k) = 2 * 2 ^ nat k"
      by (simp add: nat_add_distrib)
    with IH have "n < 2 ^ nat (1 + k)" by presburger
    ultimately show ?thesis using IH(1) by (simp add: bl)
  qed
qed

lemma floor_log2_lower:
  assumes "0 < a" "0 < b"
  shows "b * 2 ^ nat (floor_log2 a b) \<le> a * 2 ^ nat (- floor_log2 a b)"
proof -
  define la where "la = bit_length a"
  define lb where "lb = bit_length b"
  define d where "d = la - lb"
  from bit_length_bounds [OF assms(1)] have a: "1 \<le> la" "2 ^ nat (la - 1) \<le> a"
    by (simp_all add: la_def)
  from bit_length_bounds [OF assms(2)] have b: "1 \<le> lb" "b < 2 ^ nat lb"
    by (simp_all add: lb_def)
  show ?thesis
  proof (cases "b * 2 ^ nat d \<le> a * 2 ^ nat (- d)")
    case True
    then show ?thesis by (simp add: floor_log2_def Let_def flip: la_def lb_def d_def)
  next
    case False
    then have e: "floor_log2 a b = d - 1"
      by (simp add: floor_log2_def Let_def flip: la_def lb_def d_def)
    show ?thesis
    proof (cases "1 \<le> d")
      case True
      have "b * 2 ^ nat (d - 1) \<le> 2 ^ nat lb * 2 ^ nat (d - 1)"
        using b(2) by (intro mult_right_mono) simp_all
      also have "\<dots> = 2 ^ nat (la - 1)"
        using True b(1) by (simp add: pow2_nat_add d_def)
      finally show ?thesis using a(2) True by (simp add: e)
    next
      case False
      then have "nat (d - 1) = 0" by simp
      have "b \<le> 2 ^ nat lb" using b(2) by simp
      also have "\<dots> = 2 ^ nat (la - 1) * 2 ^ nat (1 - d)"
        using False a(1) by (simp add: pow2_nat_add d_def)
      also have "\<dots> \<le> a * 2 ^ nat (1 - d)"
        using a(2) by (intro mult_right_mono) simp_all
      finally show ?thesis using False by (simp add: e)
    qed
  qed
qed

lemma round_half_even_le:
  assumes "0 < d" "n \<le> k * d"
  shows "round_half_even n d \<le> k"
proof -
  have "n div d \<le> (k * d) div d" using assms by (intro zdiv_mono1) simp_all
  with assms(1) have q: "n div d \<le> k" by simp
  show ?thesis
  proof (cases "n div d = k")
    case True
    have "n = d * (n div d) + n mod d" by simp
    with True assms(2) have "n mod d \<le> 0" by (simp add: mult.commute)
    with assms(1) True show ?thesis by (simp add: round_half_even_def Let_def)
  next
    case False
    with q show ?thesis by (simp add: round_half_even_def Let_def)
  qed
qed

lemma round_half_even_gt:
  assumes "0 < d" "(2 * k + 1) * d < 2 * n"
  shows "k < round_half_even n d"
proof -
  have nd: "n = d * (n div d) + n mod d" by simp
  have r: "n mod d < d" using assms(1) by simp
  have "k \<le> n div d"
  proof (rule ccontr)
    assume "\<not> k \<le> n div d"
    then have "n div d + 1 \<le> k" by simp
    then have "d * (n div d + 1) \<le> d * k" using assms(1) by (intro mult_left_mono) simp_all
    then have "d * (n div d) + d \<le> d * k" by (simp add: algebra_simps)
    with r have "d * (n div d) + n mod d < d * k" by linarith
    with nd have "n < d * k" by simp
    with assms show False by (simp add: algebra_simps)
  qed
  show ?thesis
  proof (cases "n div d = k")
    case True
    with nd have "n = d * k + n mod d" by simp
    with assms(2) have "d < 2 * (n mod d)" by (simp add: algebra_simps)
    with True show ?thesis by (simp add: round_half_even_def Let_def)
  next
    case False
    with \<open>k \<le> n div d\<close> show ?thesis by (simp add: round_half_even_def Let_def)
  qed
qed

lemma round_ratio_upper:
  assumes "0 < a" "0 < b" "a \<le> J * b" "J < 2 ^ 53"
  shows "expo (round_ratio a b) \<le> 0 \<and> 0 \<le> mant (round_ratio a b) \<and>
         mant (round_ratio a b) \<le> J * 2 ^ nat (- expo (round_ratio a b))"
proof -
  define e where "e = floor_log2 a b"
  define p where "p = max (e - 52) (- 1074)"
  have e52: "e \<le> 52"
  proof (rule ccontr)
    assume "\<not> e \<le> 52"
    then have big: "53 \<le> nat e" and "nat (- e) = 0" by simp_all
    with floor_log2_lower [OF assms(1,2)] have "b * 2 ^ nat e \<le> a" by (simp add: e_def)
    moreover have "b * 2 ^ 53 \<le> b * 2 ^ nat e"
      using assms(2) big by (intro mult_left_mono power_increasing) simp_all
    moreover have "J * b < 2 ^ 53 * b"
      using assms(2,4) by (intro mult_strict_right_mono) simp_all
    ultimately show False using assms(3) by (simp add: mult.commute)
  qed
  then have p0: "p \<le> 0" by (simp add: p_def)
  then have x: "round_ratio a b = PyFloat (round_half_even (a * 2 ^ nat (- p)) b) p"
    by (simp add: round_ratio_def Let_def flip: e_def p_def)
  have "a * 2 ^ nat (- p) \<le> (J * b) * 2 ^ nat (- p)"
    using assms(3) by (intro mult_right_mono) simp_all
  then have "round_half_even (a * 2 ^ nat (- p)) b \<le> J * 2 ^ nat (- p)"
    using assms(2) by (intro round_half_even_le) (simp_all add: mult.assoc mult.left_commute mult.commute)
  moreover have "0 \<le> round_half_even (a * 2 ^ nat (- p)) b"
    using assms(1,2) by (intro round_half_even_nonneg) simp_all
  ultimately show ?thesis using p0 by (simp add: x)
qed

lemma round_ratio_no_overflow:
  assumes "0 < a" "0 < b" "a \<le> J * b" "J < 2 ^ 53"
  shows "\<not> overflows (round_ratio a b)"
proof
  assume ov: "overflows (round_ratio a b)"
  from round_ratio_upper [OF assms] ov
  have "expo (round_ratio a b) = 0" "0 \<le> mant (round_ratio a b)" "mant (round_ratio a b) \<le> J"
    "2 ^ 1024 \<le> \<bar>mant (round_ratio a b)\<bar>"
    by (auto simp: overflows_def)
  with assms(4) show False by simp
qed

lemma round_ratio_lower:
  assumes "0 < a" "0 < b" "expo (round_ratio a b) \<le> 0" "K * b < a"
    and "b < 2 * 2 ^ nat (- expo (round_ratio a b))"
  shows "K * 2 ^ nat (- expo (round_ratio a b)) < mant (round_ratio a b)"
proof -
  define p where "p = expo (round_ratio a b)"
  define X :: int where "X = 2 ^ nat (- p)"
  have X: "0 < X" by (simp add: X_def)
  from assms(3) have m: "mant (round_ratio a b) = round_half_even (a * X) b"
    by (simp add: round_ratio_def Let_def p_def X_def)
  from assms(4) have "K * b + 1 \<le> a" by simp
  then have "(2 * X) * (K * b + 1) \<le> (2 * X) * a"
    using X by (intro mult_left_mono) simp_all
  then have "2 * (K * X * b) + 2 * X \<le> 2 * (a * X)" by (simp add: algebra_simps)
  with assms(5) have "2 * (K * X * b) + b < 2 * (a * X)" by (simp add: p_def X_def)
  then have "(2 * (K * X) + 1) * b < 2 * (a * X)" by (simp add: algebra_simps)
  from round_half_even_gt [OF assms(2) this] show ?thesis
    by (simp add: m flip: p_def X_def)
qed

lemma round_ratio_quantum:
  assumes "0 < a" "0 < b" "a < 2 ^ 53" "b < 2 ^ 1075"
  shows "b < 2 * 2 ^ nat (- expo (round_ratio a b))"
proof -
  define e where "e = floor_log2 a b"
  have p: "expo (round_ratio a b) = max (e - 52) (- 1074)"
    by (simp add: round_ratio_def Let_def e_def)
  show ?thesis
  proof (cases "e - 52 \<le> - 1074")
    case True
    then have "expo (round_ratio a b) = - 1074" by (simp add: p)
    with assms(4) show ?thesis by simp
  next
    case False
    then have pe: "expo (round_ratio a b) = e - 52" by (simp add: p)
    from floor_log2_lower [OF assms(1,2)]
    have fl: "b * 2 ^ nat e \<le> a * 2 ^ nat (- e)" by (simp add: e_def)
    have "a * 2 ^ nat (- e) < 2 ^ 53 * 2 ^ nat (- e)"
      using assms(3) by (intro mult_strict_right_mono) simp_all
    with fl have lt: "b * 2 ^ nat e < 2 ^ 53 * 2 ^ nat (- e)" by (rule le_less_trans)
    show ?thesis
    proof (cases "0 \<le> e")
      case True
      with lt have lt': "b * 2 ^ nat e < 2 ^ 53" by simp
      have e53: "nat e \<le> 53"
      proof (rule ccontr)
        assume "\<not> nat e \<le> 53"
        then have "(2::int) ^ 53 \<le> 2 ^ nat e" by (intro power_increasing) simp_all
        also have "\<dots> \<le> b * 2 ^ nat e" using assms(2) by simp
        finally show False using lt' by simp
      qed
      then have "(2::int) ^ 53 = 2 ^ (53 - nat e) * 2 ^ nat e"
        by (simp flip: power_add)
      with lt' have "b * 2 ^ nat e < 2 ^ (53 - nat e) * 2 ^ nat e" by simp
      then have b53: "b < 2 ^ (53 - nat e)" by simp
      have "53 - nat e \<le> Suc (nat (52 - e))" using True by auto
      then have "(2::int) ^ (53 - nat e) \<le> 2 ^ Suc (nat (52 - e))"
        by (intro power_increasing) simp_all
      with b53 have "b < 2 ^ Suc (nat (52 - e))" by (rule less_le_trans)
      then show ?thesis by (simp add: pe)
    next
      case False
      then have "nat (52 - e) = 52 + nat (- e)" by simp
      then have "(2::int) ^ 53 * 2 ^ nat (- e) = 2 * 2 ^ nat (52 - e)"
        by (simp add: power_add)
      with lt False show ?thesis by (simp add: pe)
    qed
  qed
qed

lemma math_ceil_unique:
  assumes "expo x \<le> 0" "(K - 1) * 2 ^ nat (- expo x) < mant x" "mant x \<le> K * 2 ^ nat (- expo x)"
  shows "math_ceil x = K"
proof (cases "expo x = 0")
  case True
  with assms show ?thesis by (simp add: math_ceil_def)
next
  case False
  define X :: int where "X = 2 ^ nat (- expo x)"
  have X: "0 < X" by (simp add: X_def)
  from assms(2,3) have "- mant x = X * (- K) + (K * X - mant x)" "0 \<le> K * X - mant x"
    "K * X - mant x < X"
    by (simp_all add: X_def algebra_simps)
  then have "(- mant x) div X = - K" by (rule int_div_pos_eq)
  with False assms(1) show ?thesis by (simp add: math_ceil_def X_def)
qed

lemma ceiling_ratio:
  assumes "0 < b"
  shows "(\<lceil>rat_of_int a / rat_of_int b\<rceil> - 1) * b < a \<and> a \<le> \<lceil>rat_of_int a / rat_of_int b\<rceil> * b"
proof -
  define k where "k = \<lceil>rat_of_int a / rat_of_int b\<rceil>"
  from assms have b: "0 < rat_of_int b" by simp
  have "rat_of_int k - 1 < rat_of_int a / rat_of_int b" "rat_of_int a / rat_of_int b \<le> rat_of_int k"
    unfolding k_def by linarith+
  with b have "rat_of_int ((k - 1) * b) < rat_of_int a" "rat_of_int a \<le> rat_of_int (k * b)"
    by (simp_all add: pos_less_divide_eq pos_divide_le_eq)
  then show ?thesis unfolding k_def [symmetric] by (simp only: of_int_less_iff of_int_le_iff)
qed

lemma truediv_ceil_exact:
  assumes "0 \<le> a" "a < 2 ^ 53" "0 < b" "b < 2 ^ 1075"
  shows "\<exists>q. truediv a b = Inr q \<and> math_ceil q = \<lceil>rat_of_int a / rat_of_int b\<rceil>"
proof (cases "a = 0")
  case True
  with assms(3) show ?thesis by (simp add: truediv_zero math_ceil_def)
next
  case False
  with assms(1) have a: "0 < a" by simp
  define k where "k = \<lceil>rat_of_int a / rat_of_int b\<rceil>"
  from ceiling_ratio [OF assms(3), of a] have k: "(k - 1) * b < a" "a \<le> k * b"
    by (simp_all add: k_def)
  have k1: "1 \<le> k"
  proof (rule ccontr)
    assume "\<not> 1 \<le> k"
    then have "k \<le> 0" by simp
    with assms(3) have "k * b \<le> 0" by (simp add: mult_le_0_iff)
    with k(2) a show False by simp
  qed
  have "(k - 1) * 1 \<le> (k - 1) * b" using k1 assms(3) by (intro mult_left_mono) simp_all
  with k(1) assms(2) have k53: "k < 2 ^ 53" by simp
  define x where "x = round_ratio a b"
  from round_ratio_upper [OF a assms(3) k(2) k53]
  have up: "expo x \<le> 0" "mant x \<le> k * 2 ^ nat (- expo x)" by (simp_all add: x_def)
  from round_ratio_quantum [OF a assms(3) assms(2) assms(4)]
  have "b < 2 * 2 ^ nat (- expo x)" by (simp add: x_def)
  with round_ratio_lower [OF a assms(3) _ k(1)] up(1)
  have "(k - 1) * 2 ^ nat (- expo x) < mant x" by (simp add: x_def)
  with up have "math_ceil x = k" by (intro math_ceil_unique)
  moreover from round_ratio_no_overflow [OF a assms(3) k(2) k53] a assms(3)
  have "truediv a b = Inr x" by (simp add: truediv_def nearest_double_def x_def)
  ultimately show ?thesis by (simp add: k_def)
qed

lemma truediv_returns:
  assumes "0 \<le> a" "a < 2 ^ 53" "0 < b"
  shows "\<exists>q. truediv a b = Inr q"
proof (cases "a = 0")
  case True
  with assms(3) show ?thesis by (simp add: truediv_zero)
next
  case False
  with assms(1) have a: "0 < a" by simp
  have "a * 1 \<le> a * b" using a assms(3) by (intro mult_left_mono) simp_all
  then have "a \<le> a * b" by simp
  from round_ratio_no_overflow [OF a assms(3) this assms(2)] a assms(3)
  show ?thesis by (simp add: truediv_def nearest_double_def)
qed

lemma fval_bounds:
  assumes "expo x \<le> 0" "0 \<le> mant x" "mant x \<le> J * 2 ^ nat (- expo x)"
  shows "0 \<le> fval x \<and> fval x \<le> rat_of_int J"
proof -
  define X :: int where "X = 2 ^ nat (- expo x)"
  have X: "0 < rat_of_int X" by (simp add: X_def)
  from assms(3) have "rat_of_int (mant x) \<le> rat_of_int (J * X)"
    unfolding X_def by (simp only: of_int_le_iff)
  with X have le: "rat_of_int (mant x) / rat_of_int X \<le> rat_of_int J"
    by (simp add: pos_divide_le_eq)
  have fv: "fval x = rat_of_int (mant x) / rat_of_int X"
  proof (cases "expo x = 0")
    case True
    then show ?thesis by (simp add: fval_def X_def)
  next
    case False
    with assms(1) show ?thesis by (simp add: fval_def X_def)
  qed
  from assms(2) X have "0 \<le> rat_of_int (mant x) / rat_of_int X" by simp
  with le show ?thesis by (simp add: fv)
qed

lemma nearest_double_bounds:
  assumes "0 \<le> a" "0 < b" "a \<le> J * b" "0 \<le> J" "J < 2 ^ 53"
  shows "\<not> overflows (nearest_double a b) \<and> expo (nearest_double a b) \<le> 0 \<and>
         0 \<le> mant (nearest_double a b) \<and>
         mant (nearest_double a b) \<le> J * 2 ^ nat (- expo (nearest_double a b))"
proof (cases "a = 0")
  case True
  with assms(4) show ?thesis by (simp add: nearest_double_def overflows_def)
next
  case False
  with assms(1) have a: "0 < a" by simp
  from round_ratio_no_overflow [OF a assms(2,3,5)] round_ratio_upper [OF a assms(2,3,5)] a assms(2)
  show ?thesis by (simp add: nearest_double_def)
qed

lemma rate_bounds:
  assumes "0 \<le> c" "c \<le> n"
  shows "\<exists>r. rate c n = Inr (Finite r) \<and> 0 \<le> fval r \<and> fval r \<le> 100 \<and>
             (n = 0 \<longrightarrow> r = PyFloat 0 0)"
proof (cases "n = 0")
  case True
  then show ?thesis by (simp add: rate_def fval_def)
next
  case False
  with assms have n: "0 < n" by simp
  define q where "q = nearest_double c n"
  from nearest_double_bounds [of c n 1] assms n
  have q: "truediv c n = Inr q" "expo q \<le> 0" "0 \<le> mant q" "mant q \<le> 2 ^ nat (- expo q)"
    by (simp_all add: truediv_def q_def)
  define r where "r = nearest_double (mant q * 100) (2 ^ nat (- expo q))"
  from q(2) have "fmul q (PyFloat 100 0) = (if overflows r then (if 0 < mant r then Inf else NegInf)
                                            else Finite r)"
    by (simp add: fmul_def Let_def r_def)
  moreover from nearest_double_bounds [of "mant q * 100" "2 ^ nat (- expo q)" 100] q(3,4)
  have "\<not> overflows r" "expo r \<le> 0" "0 \<le> mant r" "mant r \<le> 100 * 2 ^ nat (- expo r)"
    by (simp_all add: r_def)
  ultimately show ?thesis using q(1) False fval_bounds [of r 100]
    by (simp add: rate_def)
qed

section \<open>Bucket count and rates\<close>

lemma build_nb:
  assumes "0 < fr self" "build self pages = Some (Inr self')"
  shows "\<exists>q. truediv (record_count pages) (fr self) = Inr q \<and> 0 \<le> math_ceil q \<and>
             nb self' = math_ceil q + 1"
  using build_positive [OF assms] by (auto simp: index_inv_def)

lemma build_returns:
  assumes "0 < fr self" "record_count pages < 2 ^ 53"
  shows "\<exists>self'. build self pages = Some (Inr self')"
proof -
  have nr: "0 \<le> record_count pages" by (simp add: record_count_entries)
  from truediv_returns [OF nr assms(2,1)] obtain q where
    q: "truediv (record_count pages) (fr self) = Inr q" by blast
  from truediv_nonneg [OF nr assms(1) q] have n1: "0 < math_ceil q + 1"
    using math_ceil_nonneg [of q] by simp
  from index_inv_start [OF assms(1) n1, of self]
  have "index_inv (fr self) (math_ceil q + 1) [] (fresh_index self (math_ceil q + 1))"
    by (simp add: fresh_index_def)
  from build_pages_inv [OF assms(1) n1 this, of pages] q show ?thesis
    by (auto simp: build_def Let_def fresh_index_def)
qed

text \<open>
  C1. For \<open>FR > 0\<close> and fewer than \<open>2 ^ 53\<close> records, \<open>build\<close> returns, and on the
  index it leaves \<open>find_page\<close> returns not-found for a key that no page holds, and for
  a key that page number \<open>i\<close> holds and no page before it holds, it returns the id of
  page \<open>i\<close>: the first page that contributed the key.
\<close>

theorem find_page_after_build:
  assumes "0 < fr self" "record_count pages < 2 ^ 53"
  shows "\<exists>self'. build self pages = Some (Inr self') \<and>
           ((\<forall>p \<in> set pages. key \<notin> set (records p)) \<longrightarrow> find_page self' key = Inr None) \<and>
           (i < length pages \<and> key \<in> set (records (pages ! i)) \<and>
            (\<forall>j<i. key \<notin> set (records (pages ! j)))
              \<longrightarrow> find_page self' key = Inr (Some (page_id (pages ! i))))"
proof -
  from build_returns [OF assms] obtain self' where
    b: "build self pages = Some (Inr self')" by blast
  have "((\<forall>p \<in> set pages. key \<notin> set (records p)) \<longrightarrow> find_page self' key = Inr None) \<and>
        (i < length pages \<and> key \<in> set (records (pages ! i)) \<and>
         (\<forall>j<i. key \<notin> set (records (pages ! j)))
           \<longrightarrow> find_page self' key = Inr (Some (page_id (pages ! i))))"
    using scan_loop_None [of pages key 0] scan_loop_first [of i pages key 0]
    by (auto simp: find_page_built [OF b] find_items_scan [of pages key 0])
  with b show ?thesis by blast
qed

theorem find_page_after_build_witness:
  "0 < fr (HashIndex_init 1) \<and> record_count demo_pages < 2 ^ 53 \<and>
   build (HashIndex_init 1) demo_pages = Some (Inr demo_index) \<and>
   find_page demo_index [97] = Inr (Some 0) \<and>
   find_page demo_index [98] = Inr (Some 1) \<and>
   find_page demo_index [99] = Inr None"
proof -
  have f: "0 < fr (HashIndex_init 1)" by (simp add: HashIndex_init_def)
  have nr: "record_count demo_pages < 2 ^ 53" by (simp add: record_count_def demo_pages_def)
  from find_page_after_build [OF f nr, of "[97]" 0] demo_build
  have "find_page demo_index [97] = Inr (Some 0)" by (simp add: demo_pages_def)
  moreover from find_page_after_build [OF f nr, of "[98]" 1] demo_build
  have "find_page demo_index [98] = Inr (Some 1)" by (simp add: demo_pages_def)
  moreover from find_page_after_build [OF f nr, of "[99]" 0] demo_build
  have "find_page demo_index [99] = Inr None" by (simp add: demo_pages_def)
  ultimately show ?thesis using f nr demo_build by blast
qed

text \<open>
  C10. For \<open>FR \<ge> 1\<close> and fewer than \<open>2 ^ 53\<close> records, \<open>build\<close> returns, and on
  the index it leaves the overflow count is at most the collision count, the collision
  count is at most the insert count, and the insert count is the number of records.
  Step by step: on an index whose buckets have capacity at least 1, an insertion that
  counts an overflow counts a collision too, since \<open>insert\<close> returns true only on a head
  that is not empty.
\<close>

theorem overflow_le_collision:
  assumes "1 \<le> fr self" "record_count pages < 2 ^ 53"
  shows "\<exists>self'. build self pages = Some (Inr self') \<and>
           overflow_inserts self' \<le> collision_inserts self' \<and>
           collision_inserts self' \<le> inserts self' \<and>
           inserts self' = record_count pages \<and>
           (\<forall>s pid key s'.
              list_all (\<lambda>node. 1 \<le> capacity node) (buckets s) \<longrightarrow>
              build_key pid s key = Some (Inr s') \<longrightarrow>
              overflow_inserts s' \<noteq> overflow_inserts s \<longrightarrow>
              collision_inserts s' = collision_inserts s + 1) \<and>
           (\<forall>node key pid node'.
              1 \<le> capacity node \<longrightarrow>
              BucketNode_insert node key pid = Some (node', True) \<longrightarrow> 0 < length (items node))"
proof -
  from assms(1) have "0 < fr self" by simp
  from build_returns [OF this assms(2)] obtain self' where
    b: "build self pages = Some (Inr self')" by blast
  from counters_built [OF b] insert_overflow_nonempty build_key_overflow_collision
  have "overflow_inserts self' \<le> collision_inserts self' \<and>
        collision_inserts self' \<le> inserts self' \<and>
        inserts self' = record_count pages \<and>
        (\<forall>s pid key s'.
           list_all (\<lambda>node. 1 \<le> capacity node) (buckets s) \<longrightarrow>
           build_key pid s key = Some (Inr s') \<longrightarrow>
           overflow_inserts s' \<noteq> overflow_inserts s \<longrightarrow>
           collision_inserts s' = collision_inserts s + 1) \<and>
        (\<forall>node key pid node'.
           1 \<le> capacity node \<longrightarrow>
           BucketNode_insert node key pid = Some (node', True) \<longrightarrow> 0 < length (items node))"
    by blast
  with b show ?thesis by blast
qed

theorem overflow_le_collision_witness:
  "1 \<le> fr (HashIndex_init 1) \<and> record_count demo_pages < 2 ^ 53 \<and>
   build (HashIndex_init 1) demo_pages = Some (Inr demo_index) \<and>
   overflow_inserts demo_index \<le> collision_inserts demo_index \<and>
   collision_inserts demo_index \<le> inserts demo_index \<and>
   inserts demo_index = record_count demo_pages \<and>
   build_key 1 full_index [98] =
     Some (Inr \<lparr>fr = 1, nb = 1,
                buckets = [BucketNode 1 [([97], 0)] (Some (BucketNode 1 [([98], 1)] None))],
                inserts = 2, collision_inserts = 1, overflow_inserts = 1\<rparr>) \<and>
   BucketNode_insert (BucketNode 1 [([97], 0)] None) [98] 1 =
     Some (BucketNode 1 [([97], 0)] (Some (BucketNode 1 [([98], 1)] None)), True) \<and>
   0 < length (items (BucketNode 1 [([97], 0)] None))"
proof -
  have f: "1 \<le> fr (HashIndex_init 1)" by (simp add: HashIndex_init_def)
  have nr: "record_count demo_pages < 2 ^ 53" by (simp add: record_count_def demo_pages_def)
  from overflow_le_collision [OF f nr] demo_build
  have counts: "overflow_inserts demo_index \<le> collision_inserts demo_index"
    "collision_inserts demo_index \<le> inserts demo_index"
    "inserts demo_index = record_count demo_pages"
    and head: "\<And>node key pid node'. 1 \<le> capacity node \<Longrightarrow>
       BucketNode_insert node key pid = Some (node', True) \<Longrightarrow> 0 < length (items node)"
    by auto
  have ins: "BucketNode_insert (BucketNode 1 [([97], 0)] None) [98] 1 =
     Some (BucketNode 1 [([97], 0)] (Some (BucketNode 1 [([98], 1)] None)), True)"
    by (simp add: BucketNode_insert_def insert_loop.simps)
  have step: "build_key 1 full_index [98] =
     Some (Inr \<lparr>fr = 1, nb = 1,
                buckets = [BucketNode 1 [([97], 0)] (Some (BucketNode 1 [([98], 1)] None))],
                inserts = 2, collision_inserts = 1, overflow_inserts = 1\<rparr>)"
    by (simp add: build_key_def full_index_def hash_fn_def norm_index_def ins)
  from head [OF _ ins] have "0 < length (items (BucketNode 1 [([97], 0)] None))" by simp
  with counts f nr demo_build step ins show ?thesis by blast
qed

text \<open>
  C2, as the specification states it, fails: \<open>nr / self.fr\<close> is a float. With one
  record and \<open>FR = 2 ^ 1075\<close> the quotient \<open>2 ^ -1075\<close> lies halfway between \<open>0.0\<close> and
  the least positive double and is rounded to \<open>0.0\<close>, so \<open>build\<close> sets \<open>NB = 1\<close>, while
  \<open>ceil(NR / FR) + 1\<close> is \<open>2\<close>.
\<close>

theorem bucket_count_float_counterexample:
  "build (HashIndex_init (2 ^ 1075)) [\<lparr>page_id = 0, records = [[97]]\<rparr>] =
     Some (Inr \<lparr>fr = 2 ^ 1075, nb = 1, buckets = [BucketNode (2 ^ 1075) [([97], 0)] None],
                inserts = 1, collision_inserts = 0, overflow_inserts = 0\<rparr>) \<and>
   \<lceil>rat_of_int (record_count [\<lparr>page_id = 0, records = [[97]]\<rparr>]) / rat_of_int (2 ^ 1075)\<rceil> + 1 = 2"
  by code_simp

text \<open>
  C2, amended. For \<open>FR > 0\<close>, every \<open>build\<close> that returns leaves \<open>NB \<ge> 1\<close>, and
  \<open>NB = 1\<close> when there is no record. When moreover \<open>NR < 2 ^ 53\<close> and
  \<open>FR < 2 ^ 1075\<close>, \<open>build\<close> returns and \<open>NB\<close> is the exact \<open>ceil(NR / FR) + 1\<close>: in
  that range the rounding of the float division never crosses an integer.
\<close>

theorem bucket_count_after_build:
  assumes "0 < fr self"
  shows "(\<forall>self'. build self pages = Some (Inr self') \<longrightarrow>
            1 \<le> nb self' \<and> (record_count pages = 0 \<longrightarrow> nb self' = 1)) \<and>
         (record_count pages < 2 ^ 53 \<and> fr self < 2 ^ 1075 \<longrightarrow>
            (\<exists>self'. build self pages = Some (Inr self') \<and>
               nb self' = \<lceil>rat_of_int (record_count pages) / rat_of_int (fr self)\<rceil> + 1))"
proof (intro conjI allI impI)
  fix self' assume b: "build self pages = Some (Inr self')"
  from build_nb [OF assms b] show "1 \<le> nb self'" by auto
  show "nb self' = 1" if "record_count pages = 0"
    using build_nb [OF assms b] that assms by (auto simp: truediv_zero math_ceil_def)
next
  assume bounds: "record_count pages < 2 ^ 53 \<and> fr self < 2 ^ 1075"
  have nr: "0 \<le> record_count pages" by (simp add: record_count_entries)
  from build_returns [OF assms] bounds obtain self' where
    b: "build self pages = Some (Inr self')" by blast
  from truediv_ceil_exact [OF nr _ assms] bounds build_nb [OF assms b]
  have "nb self' = \<lceil>rat_of_int (record_count pages) / rat_of_int (fr self)\<rceil> + 1" by auto
  with b show "\<exists>self'. build self pages = Some (Inr self') \<and>
      nb self' = \<lceil>rat_of_int (record_count pages) / rat_of_int (fr self)\<rceil> + 1"
    by blast
qed

theorem bucket_count_after_build_witness:
  "0 < fr (HashIndex_init 2) \<and>
   map_option (map_sum id nb) (build (HashIndex_init 2) fruit_pages) = Some (Inr 5) \<and>
   0 < fr (HashIndex_init 8) \<and> build (HashIndex_init 8) [] = Some (Inr empty_index) \<and>
   record_count [] = 0 \<and> nb empty_index = 1"
proof -
  have f: "0 < fr (HashIndex_init 2)" by (simp add: HashIndex_init_def)
  have nr: "record_count fruit_pages = 7" by (simp add: record_count_def fruit_pages_def)
  have "\<lceil>rat_of_int 7 / rat_of_int 2\<rceil> = 4" by (simp add: ceiling_eq_iff)
  with bucket_count_after_build [OF f, of fruit_pages] nr
  obtain self' where "build (HashIndex_init 2) fruit_pages = Some (Inr self')" "nb self' = 5"
    by (auto simp: HashIndex_init_def)
  then have seven: "map_option (map_sum id nb) (build (HashIndex_init 2) fruit_pages) = Some (Inr 5)"
    by simp
  have f8: "0 < fr (HashIndex_init 8)" by (simp add: HashIndex_init_def)
  have nr0: "record_count [] = 0" by (simp add: record_count_def)
  from bucket_count_after_build [OF f8, of "[]"] empty_build nr0
  have "nb empty_index = 1" by blast
  with f seven f8 empty_build nr0 show ?thesis by blast
qed

text \<open>
  C9. After a \<open>build\<close> that returned, the collision count and the overflow count lie
  between 0 and the insert count, \<open>collision_rate\<close> and \<open>overflow_rate\<close> return floats
  between 0 and 100, and both return \<open>0.0\<close> when the insert count is 0.
\<close>

theorem rates_in_range:
  assumes "build self pages = Some (Inr self')"
  shows "0 \<le> collision_inserts self' \<and> collision_inserts self' \<le> inserts self' \<and>
         0 \<le> overflow_inserts self' \<and> overflow_inserts self' \<le> inserts self' \<and>
         (\<exists>c v. collision_rate self' = Inr (Finite c) \<and> overflow_rate self' = Inr (Finite v) \<and>
                0 \<le> fval c \<and> fval c \<le> 100 \<and> 0 \<le> fval v \<and> fval v \<le> 100 \<and>
                (inserts self' = 0 \<longrightarrow> c = PyFloat 0 0 \<and> v = PyFloat 0 0))"
proof -
  from counters_built [OF assms]
  have c: "0 \<le> collision_inserts self'" "collision_inserts self' \<le> inserts self'"
    and v: "0 \<le> overflow_inserts self'" "overflow_inserts self' \<le> inserts self'"
    by simp_all
  from rate_bounds [OF c] rate_bounds [OF v] c v show ?thesis
    unfolding collision_rate_def overflow_rate_def by blast
qed

theorem rates_in_range_witness:
  "build (HashIndex_init 1) demo_pages = Some (Inr demo_index) \<and>
   collision_inserts demo_index \<le> inserts demo_index \<and>
   overflow_inserts demo_index \<le> inserts demo_index \<and>
   collision_rate demo_index = Inr (Finite (PyFloat 7036874417766400 (- 47))) \<and>
   overflow_rate demo_index = Inr (Finite (PyFloat 7036874417766400 (- 47))) \<and>
   fval (PyFloat 7036874417766400 (- 47)) = 50 \<and>
   build (HashIndex_init 8) [] = Some (Inr empty_index) \<and> inserts empty_index = 0 \<and>
   collision_rate empty_index = Inr (Finite (PyFloat 0 0)) \<and>
   overflow_rate empty_index = Inr (Finite (PyFloat 0 0))"
proof -
  have "collision_rate demo_index = Inr (Finite (PyFloat 7036874417766400 (- 47)))"
    "overflow_rate demo_index = Inr (Finite (PyFloat 7036874417766400 (- 47)))"
    "fval (PyFloat 7036874417766400 (- 47)) = 50"
    by code_simp+
  with rates_in_range [OF demo_build] demo_build
  have demo: "build (HashIndex_init 1) demo_pages = Some (Inr demo_index) \<and>
   collision_inserts demo_index \<le> inserts demo_index \<and>
   overflow_inserts demo_index \<le> inserts demo_index \<and>
   collision_rate demo_index = Inr (Finite (PyFloat 7036874417766400 (- 47))) \<and>
   overflow_rate demo_index = Inr (Finite (PyFloat 7036874417766400 (- 47))) \<and>
   fval (PyFloat 7036874417766400 (- 47)) = 50" by simp
  have zero: "inserts empty_index = 0" by (simp add: empty_index_def)
  with rates_in_range [OF empty_build]
  have "collision_rate empty_index = Inr (Finite (PyFloat 0 0))"
    "overflow_rate empty_index = Inr (Finite (PyFloat 0 0))"
    by auto
  with demo zero empty_build show ?thesis by blast
qed

end
